theory Spec2Isabelle
  imports Complex_Main
begin

section \<open>Data model\<close>

text \<open>
  The helper functions of \<^verbatim>\<open>helpfun.c\<close> work on caller-owned \<^verbatim>\<open>float\<close> buffers and
  \<^verbatim>\<open>int\<close> sizes. A buffer is a list, a size or loop counter an \<open>int\<close>, and a function that
  writes through a pointer takes the buffer and returns the buffer it has written; input and
  output buffers are taken to be distinct objects. The parameter \<^verbatim>\<open>dim\<close> is written \<open>dim'\<close>
  and \<^verbatim>\<open>length\<close> is written \<open>length'\<close>, since the plain names are constants of the library.
  The constants \<^verbatim>\<open>EPS\<close> and \<^verbatim>\<open>FLOAT_MAX\<close> come from a header that is not part of the sources
  at hand, so the functions that use them take them as their first argument.

  The values of type \<^verbatim>\<open>float\<close> are read in two ways.
  \<^item> In exact arithmetic, as real numbers. This is the reading of \<open>autocorr\<close>, \<open>levdurb\<close>,
    \<open>interpolate\<close>, \<open>sort_sq\<close> and \<open>LSF_check\<close>: the sums, the linear combinations and the
    comparisons are those of the code, and rounding, overflow, infinities and NaN are outside
    these models.
  \<^item> In IEEE 754 single precision (binary32, round to nearest, ties to even), with
    infinities and NaN. This is the reading of \<open>vq\<close>, \<open>sort_sq_f32\<close> and
    \<open>LSF_separate_f32\<close>, where the outcome depends on a rounded result or on a comparison
    with NaN.
\<close>

subsection \<open>Counted loops\<close>

text \<open>
  Every \<^verbatim>\<open>for\<close> loop of the file has the shape \<^verbatim>\<open>for (i = lo; i < n; i++) body\<close>, with
  a bound that the body does not change. \<open>for_loop lo n body s\<close> runs it from the state
  \<open>s\<close>; the body receives the counter.
\<close>

function for_loop :: "int \<Rightarrow> int \<Rightarrow> (int \<Rightarrow> 's \<Rightarrow> 's) \<Rightarrow> 's \<Rightarrow> 's" where
  "for_loop i n body s = (if i < n then for_loop (i + 1) n body (body i s) else s)"
  by pat_completeness auto
termination
  by (relation "measure (\<lambda>(i, n, body, s). nat (n - i))") auto

declare for_loop.simps [simp del]

subsection \<open>Outcomes that are not a value\<close>

text \<open>
  A read outside a buffer is the value \<open>Inl (OutOfBounds i)\<close>, where the model checks the
  reads. A division by zero gives an infinity or NaN in the code, which is no real number:
  in an exact-arithmetic model it is the value \<open>Inl NotFinite\<close>.
\<close>

datatype error = OutOfBounds int | NotFinite

definition read_at :: "'a list \<Rightarrow> int \<Rightarrow> error + 'a" where
  "read_at buf i = (if 0 \<le> i \<and> i < int (length buf) then Inr (buf ! nat i) else Inl (OutOfBounds i))"

definition checked_div :: "real \<Rightarrow> real \<Rightarrow> error + real" where
  "checked_div x y = (if y = 0 then Inl NotFinite else Inr (x / y))"

subsection \<open>Single-precision arithmetic\<close>

text \<open>
  A binary32 value is a finite real, an infinity or NaN. Every operation rounds its exact
  result to binary32: there is no wider intermediate precision and no fused multiply-add.
  The two zeros are one value \<open>Fin 0\<close>: they compare equal, and addition, subtraction and
  multiplication give the same results on them up to the sign of a zero result; none of the
  functions modelled in single precision divides by a computed value.

  \<open>rne\<close> rounds a real to the nearest integer, ties to even. \<open>f32_binade 253 (\<bar>x\<bar> * 2^126)\<close>
  is the exponent of \<open>x\<close> above the least normal exponent \<open>-126\<close> (it is \<open>0\<close> for subnormal
  numbers), so that \<open>f32_quantum x\<close> is the spacing \<open>2^(e - 23)\<close> of the binary32 numbers around
  \<open>x\<close>, and \<open>f32_round x\<close> is the multiple of that spacing nearest to \<open>x\<close>, or an infinity
  when that multiple reaches \<open>2^128\<close>.
\<close>

datatype f32 = Fin real | PInf | NInf | NaN

definition rne :: "real \<Rightarrow> int" where
  "rne x =
     (let f = \<lfloor>x\<rfloor>; d = x - of_int f
      in if d < 1 / 2 then f else if 1 / 2 < d then f + 1 else if even f then f else f + 1)"

fun f32_binade :: "nat \<Rightarrow> real \<Rightarrow> nat" where
  "f32_binade 0 a = 0"
| "f32_binade (Suc n) a = (if a < 2 then 0 else Suc (f32_binade n (a / 2)))"

definition f32_quantum :: "real \<Rightarrow> real" where
  "f32_quantum x = 2 ^ f32_binade 253 (\<bar>x\<bar> * 2 ^ 126) / 2 ^ 149"

definition f32_round :: "real \<Rightarrow> f32" where
  "f32_round x =
     (let q = f32_quantum x; r = of_int (rne (x / q)) * q
      in if 2 ^ 128 \<le> r then PInf else if r \<le> - (2 ^ 128) then NInf else Fin r)"

text \<open>
  The operations on two finite values round the exact result; the other cases are those of
  IEEE 754. \<open>fhalf\<close> is the division by the constant \<open>2\<close>. A comparison with NaN is false.
\<close>

fun fadd :: "f32 \<Rightarrow> f32 \<Rightarrow> f32" where
  "fadd NaN y = NaN"
| "fadd x NaN = NaN"
| "fadd PInf NInf = NaN"
| "fadd NInf PInf = NaN"
| "fadd PInf y = PInf"
| "fadd x PInf = PInf"
| "fadd NInf y = NInf"
| "fadd x NInf = NInf"
| "fadd (Fin a) (Fin b) = f32_round (a + b)"




fun fhalf :: "f32 \<Rightarrow> f32" where
  "fhalf (Fin a) = f32_round (a / 2)"
| "fhalf x = x"

fun flt :: "f32 \<Rightarrow> f32 \<Rightarrow> bool" where
  "flt NaN y = False"
| "flt x NaN = False"
| "flt (Fin a) (Fin b) = (a < b)"
| "flt x NInf = False"
| "flt PInf y = False"
| "flt NInf y = True"
| "flt x PInf = True"

definition fle :: "f32 \<Rightarrow> f32 \<Rightarrow> bool" where
  "fle x y \<longleftrightarrow> x \<noteq> NaN \<and> y \<noteq> NaN \<and> \<not> flt y x"

definition fgt :: "f32 \<Rightarrow> f32 \<Rightarrow> bool" where
  "fgt x y \<longleftrightarrow> flt y x"



subsection \<open>Autocorrelation: \<^verbatim>\<open>autocorr\<close>\<close>

text \<open>
  \<open>autocorr_sum\<close> is the inner loop, which accumulates \<^verbatim>\<open>sum += x[n]*x[n + lag]\<close> from
  \<^verbatim>\<open>sum = 0\<close>; \<open>autocorr\<close> is the outer loop over \<^verbatim>\<open>lag <= order\<close>, which stores each sum
  in \<^verbatim>\<open>r[lag]\<close>.
\<close>

definition autocorr_sum :: "real list \<Rightarrow> int \<Rightarrow> int \<Rightarrow> real" where
  "autocorr_sum x N lag =
     for_loop 0 (N - lag) (\<lambda>n sum. sum + x ! nat n * x ! nat (n + lag)) 0"

definition autocorr :: "real list \<Rightarrow> real list \<Rightarrow> int \<Rightarrow> int \<Rightarrow> real list" where
  "autocorr r x N order =
     for_loop 0 (order + 1) (\<lambda>lag r. r[nat lag := autocorr_sum x N lag]) r"

text \<open>
  The sum as the specification writes it: \<open>r[l]\<close> is the sum of \<open>x[n] * x[n + l]\<close> for
  \<open>n\<close> from \<open>0\<close> to \<open>N - l - 1\<close>.
\<close>

definition autocorr_spec :: "real list \<Rightarrow> int \<Rightarrow> int \<Rightarrow> real" where
  "autocorr_spec x N l = (\<Sum>n = 0..N - l - 1. x ! nat n * x ! nat (n + l))"

subsection \<open>Levinson-Durbin recursion: \<^verbatim>\<open>levdurb\<close>\<close>

text \<open>
  The result is the pair \<open>(a, k)\<close> of the two output buffers. \<open>levdurb_update\<close> is the
  in-place update of \<^verbatim>\<open>a[1..m]\<close> (the loop over \<^verbatim>\<open>i < m_h\<close>), \<open>levdurb_step\<close> one
  iteration of the loop over \<^verbatim>\<open>m\<close>, on the state \<open>(a, k, alpha)\<close>. The two divisions,
  \<^verbatim>\<open>-r[1]/r[0]\<close> and \<^verbatim>\<open>-sum/alpha\<close>, go through \<open>checked_div\<close>: where the code divides by
  zero it stores an infinity or NaN in \<^verbatim>\<open>k\<close>, and the model returns \<open>Inl NotFinite\<close>. The
  function itself returns \<^verbatim>\<open>void\<close>: it has no error result.
\<close>

definition levdurb_update :: "real list \<Rightarrow> real list \<Rightarrow> int \<Rightarrow> int \<Rightarrow> real list" where
  "levdurb_update a k m m_h =
     for_loop 0 m_h
       (\<lambda>i a. let sum = a ! nat (i + 1) + k ! nat m * a ! nat (m - i);
                  a = a[nat (m - i) := a ! nat (m - i) + k ! nat m * a ! nat (i + 1)];
                  a = a[nat (i + 1) := sum]
              in a) a"

definition levdurb_step ::
  "real list \<Rightarrow> int \<Rightarrow> real list \<times> real list \<times> real
     \<Rightarrow> error + (real list \<times> real list \<times> real)" where
  "levdurb_step r m s =
     (let (a, k, alpha) = s;
          sum = r ! nat (m + 1);
          sum = for_loop 0 m (\<lambda>i sum. sum + a ! nat (i + 1) * r ! nat (m - i)) sum
      in case checked_div (- sum) alpha of
           Inl e \<Rightarrow> Inl e
         | Inr q \<Rightarrow>
             (let k = k[nat m := q];
                  alpha = alpha + k ! nat m * sum;
                  m_h = (m + 1) div 2;
                  a = levdurb_update a k m m_h;
                  a = a[nat (m + 1) := k ! nat m]
              in Inr (a, k, alpha)))"

definition levdurb ::
  "real \<Rightarrow> real list \<Rightarrow> real list \<Rightarrow> real list \<Rightarrow> int \<Rightarrow> error + (real list \<times> real list)" where
  "levdurb EPS a k r order =
     (let a = a[0 := 1] in
      if r ! 0 < EPS then
        Inr (for_loop 0 order
               (\<lambda>i (a, k). let k = k[nat i := 0]; a = a[nat (i + 1) := 0] in (a, k)) (a, k))
      else
        (case checked_div (- r ! 1) (r ! 0) of
           Inl e \<Rightarrow> Inl e
         | Inr q \<Rightarrow>
             (let k = k[0 := q];
                  a = a[1 := k ! 0];
                  alpha = r ! 0 + r ! 1 * k ! 0
              in case for_loop 1 order
                        (\<lambda>m s. case s of Inl e \<Rightarrow> Inl e | Inr t \<Rightarrow> levdurb_step r m t)
                        (Inr (a, k, alpha)) of
                   Inl e \<Rightarrow> Inl e
                 | Inr (a, k, alpha) \<Rightarrow> Inr (a, k))))"

subsection \<open>Interpolation: \<^verbatim>\<open>interpolate\<close>\<close>

definition interpolate ::
  "real list \<Rightarrow> real list \<Rightarrow> real list \<Rightarrow> real \<Rightarrow> int \<Rightarrow> real list" where
  "interpolate out in1 in2 coef length' =
     (let invcoef = 1 - coef
      in for_loop 0 length' (\<lambda>i out. out[nat i := coef * in1 ! nat i + invcoef * in2 ! nat i]) out)"

subsection \<open>Vector quantization: \<^verbatim>\<open>vq\<close>\<close>







subsection \<open>Scalar quantization: \<^verbatim>\<open>sort_sq\<close>\<close>




text \<open>
  \<open>sort_sq_f32\<close> is the same function in single precision: the comparisons are those of
  binary32, false on NaN, and the midpoint is the rounded sum divided by two.
\<close>

function sort_sq_f32_scan :: "f32 \<Rightarrow> f32 list \<Rightarrow> int \<Rightarrow> int \<Rightarrow> error + int" where
  "sort_sq_f32_scan x cb cb_size i =
     (case read_at cb i of
        Inl e \<Rightarrow> Inl e
      | Inr c \<Rightarrow> (if fgt x c \<and> i < cb_size - 1 then sort_sq_f32_scan x cb cb_size (i + 1) else Inr i))"
  by pat_completeness auto
termination
  by (relation "measure (\<lambda>(x, cb, cb_size, i). nat (cb_size - 1 - i))") auto

declare sort_sq_f32_scan.simps [simp del]

definition sort_sq_f32 :: "f32 \<Rightarrow> f32 list \<Rightarrow> int \<Rightarrow> error + (f32 \<times> int)" where
  "sort_sq_f32 x cb cb_size =
     (case read_at cb 0 of
        Inl e \<Rightarrow> Inl e
      | Inr c0 \<Rightarrow>
          if fle x c0 then Inr (c0, 0)
          else
            (case sort_sq_f32_scan x cb cb_size 0 of
               Inl e \<Rightarrow> Inl e
             | Inr i \<Rightarrow>
                 (case read_at cb i of
                    Inl e \<Rightarrow> Inl e
                  | Inr ci \<Rightarrow>
                      (case read_at cb (i - 1) of
                         Inl e \<Rightarrow> Inl e
                       | Inr cim \<Rightarrow>
                           if fgt x (fhalf (fadd ci cim)) then Inr (ci, i)
                           else Inr (cim, i - 1)))))"

subsection \<open>Stability of LSF coefficients: \<^verbatim>\<open>LSF_check\<close>\<close>

text \<open>
  The state of the loops is the pair \<open>(lsf, change)\<close>. The body of the innermost loop, at
  \<^verbatim>\<open>pos = m*dim + k\<close>, is three steps in sequence: the separation of \<^verbatim>\<open>lsf[pos]\<close> and
  \<^verbatim>\<open>lsf[pos + 1]\<close>, the clamp of \<^verbatim>\<open>lsf[pos]\<close> to \<^verbatim>\<open>minlsf\<close> and its clamp to
  \<^verbatim>\<open>maxlsf\<close>. \<open>LSF_pass\<close> is the loop over \<^verbatim>\<open>m\<close> and \<^verbatim>\<open>k\<close>, \<open>LSF_check\<close> runs it
  \<^verbatim>\<open>Nit\<close> times and returns the table with the flag.
\<close>

definition eps :: real where "eps = 39 / 1000"

definition eps2 :: real where "eps2 = 195 / 10000"

definition maxlsf :: real where "maxlsf = 314 / 100"

definition minlsf :: real where "minlsf = 1 / 100"

definition Nit :: int where "Nit = 2"

definition LSF_separate :: "int \<Rightarrow> real list \<times> int \<Rightarrow> real list \<times> int" where
  "LSF_separate pos s =
     (let (lsf, change) = s in
      if lsf ! nat (pos + 1) - lsf ! nat pos < eps then
        (if lsf ! nat (pos + 1) < lsf ! nat pos then
           (let tmp = lsf ! nat (pos + 1);
                lsf = lsf[nat (pos + 1) := lsf ! nat pos + eps2];
                lsf = lsf[nat pos := lsf ! nat (pos + 1) - eps2]
            in (lsf, 1))
         else
           (let lsf = lsf[nat pos := lsf ! nat pos - eps2];
                lsf = lsf[nat (pos + 1) := lsf ! nat (pos + 1) + eps2]
            in (lsf, 1)))
      else (lsf, change))"

definition LSF_clamp_min :: "int \<Rightarrow> real list \<times> int \<Rightarrow> real list \<times> int" where
  "LSF_clamp_min pos s =
     (let (lsf, change) = s in
      if lsf ! nat pos < minlsf then (lsf[nat pos := minlsf], 1) else (lsf, change))"

definition LSF_clamp_max :: "int \<Rightarrow> real list \<times> int \<Rightarrow> real list \<times> int" where
  "LSF_clamp_max pos s =
     (let (lsf, change) = s in
      if lsf ! nat pos > maxlsf then (lsf[nat pos := maxlsf], 1) else (lsf, change))"

definition LSF_body :: "int \<Rightarrow> real list \<times> int \<Rightarrow> real list \<times> int" where
  "LSF_body pos s = LSF_clamp_max pos (LSF_clamp_min pos (LSF_separate pos s))"

definition LSF_pass :: "int \<Rightarrow> int \<Rightarrow> real list \<times> int \<Rightarrow> real list \<times> int" where
  "LSF_pass dim' NoAn s =
     for_loop 0 NoAn (\<lambda>m. for_loop 0 (dim' - 1) (\<lambda>k. LSF_body (m * dim' + k))) s"

definition LSF_check :: "real list \<Rightarrow> int \<Rightarrow> int \<Rightarrow> real list \<times> int" where
  "LSF_check lsf dim' NoAn = for_loop 0 Nit (\<lambda>n. LSF_pass dim' NoAn) (lsf, 0)"




text \<open>
  The number of repairs applied during a call is not a value of the C code. It is counted
  here by a second run of the same loops on a state with a counter: each of the three steps
  of the body that changes the table counts as one repair.
\<close>

definition LSF_body_repairs :: "int \<Rightarrow> real list \<times> int \<Rightarrow> nat" where
  "LSF_body_repairs pos s =
     (let s1 = LSF_separate pos s; s2 = LSF_clamp_min pos s1; s3 = LSF_clamp_max pos s2
      in (if fst s1 \<noteq> fst s then 1 else 0) + (if fst s2 \<noteq> fst s1 then 1 else 0)
         + (if fst s3 \<noteq> fst s2 then 1 else 0))"

definition LSF_body_counted ::
  "int \<Rightarrow> (real list \<times> int) \<times> nat \<Rightarrow> (real list \<times> int) \<times> nat" where
  "LSF_body_counted pos t = (LSF_body pos (fst t), snd t + LSF_body_repairs pos (fst t))"

definition LSF_check_counted :: "real list \<Rightarrow> int \<Rightarrow> int \<Rightarrow> (real list \<times> int) \<times> nat" where
  "LSF_check_counted lsf dim' NoAn =
     for_loop 0 Nit
       (\<lambda>n. for_loop 0 NoAn (\<lambda>m. for_loop 0 (dim' - 1) (\<lambda>k. LSF_body_counted (m * dim' + k))))
       ((lsf, 0), 0)"

definition LSF_repairs :: "real list \<Rightarrow> int \<Rightarrow> int \<Rightarrow> nat" where
  "LSF_repairs lsf dim' NoAn = snd (LSF_check_counted lsf dim' NoAn)"

subsection \<open>Predicates used in the proofs\<close>

text \<open>
  \<open>lsf_stable_at lsf pos\<close>: none of the three repairs applies at \<open>pos\<close>.
  \<open>lsf_done dim' m k p\<close>: the position \<open>p\<close> has been visited when a pass reaches vector
  \<open>m\<close>, coefficient \<open>k\<close>. The three invariants are those of a pass, of the counted run and
  of the search loop of \<open>vq\<close>.
\<close>

definition lsf_in_range :: "real \<Rightarrow> bool" where
  "lsf_in_range v \<longleftrightarrow> minlsf \<le> v \<and> v \<le> maxlsf"

definition lsf_stable_at :: "real list \<Rightarrow> int \<Rightarrow> bool" where
  "lsf_stable_at lsf pos \<longleftrightarrow>
     eps \<le> lsf ! nat (pos + 1) - lsf ! nat pos \<and> lsf_in_range (lsf ! nat pos)"

definition lsf_done :: "int \<Rightarrow> int \<Rightarrow> int \<Rightarrow> int \<Rightarrow> bool" where
  "lsf_done dim' m k p \<longleftrightarrow>
     (\<exists>m' k'. 0 \<le> m' \<and> 0 \<le> k' \<and> k' < dim' - 1 \<and> p = m' * dim' + k'
        \<and> (m' < m \<or> (m' = m \<and> k' < k)))"

definition lsf_pass_inv ::
  "real list \<Rightarrow> int \<Rightarrow> int \<Rightarrow> int \<Rightarrow> int \<Rightarrow> real list \<times> int \<Rightarrow> bool" where
  "lsf_pass_inv l0 c0 dim' m k s \<longleftrightarrow>
     length (fst s) = length l0
     \<and> (\<forall>p. lsf_done dim' m k p \<longrightarrow> lsf_in_range (fst s ! nat p))
     \<and> (snd s = 0 \<longrightarrow> c0 = 0 \<and> fst s = l0 \<and> (\<forall>p. lsf_done dim' m k p \<longrightarrow> lsf_stable_at l0 p))"

definition lsf_flag_inv :: "real list \<Rightarrow> (real list \<times> int) \<times> nat \<Rightarrow> bool" where
  "lsf_flag_inv l0 t \<longleftrightarrow>
     length (fst (fst t)) = length l0
     \<and> (snd (fst t) \<noteq> 0 \<longleftrightarrow> 0 < snd t)
     \<and> (snd (fst t) = 0 \<longrightarrow> fst (fst t) = l0)"


section \<open>Loop rules\<close>

lemma for_loop_done: "n \<le> i \<Longrightarrow> for_loop i n body s = s"
  by (subst for_loop.simps) simp

lemma for_loop_unroll: "i < n \<Longrightarrow> for_loop i n body s = for_loop (i + 1) n body (body i s)"
  by (subst for_loop.simps) simp

text \<open>
  The invariant rule, with an invariant that may depend on the counter, and its special
  case for an invariant that does not.
\<close>

lemma for_loop_rule:
  assumes "P i s" and "i \<le> n"
    and "\<And>j t. i \<le> j \<Longrightarrow> j < n \<Longrightarrow> P j t \<Longrightarrow> P (j + 1) (body j t)"
  shows "P n (for_loop i n body s)"
  using assms
proof (induction i n body s rule: for_loop.induct)
  case (1 i n body s)
  show ?case
  proof (cases "i < n")
    case True
    have "P (i + 1) (body i s)"
      using "1.prems"(3) [of i s] True "1.prems"(1) by simp
    moreover have "\<And>j t. i + 1 \<le> j \<Longrightarrow> j < n \<Longrightarrow> P j t \<Longrightarrow> P (j + 1) (body j t)"
      using "1.prems"(3) by simp
    ultimately have "P n (for_loop (i + 1) n body (body i s))"
      using "1.IH" [OF True] True by simp
    then show ?thesis
      using True by (simp add: for_loop_unroll)
  next
    case False
    with "1.prems" have "i = n" by simp
    with "1.prems"(1) show ?thesis by (simp add: for_loop_done)
  qed
qed

lemma for_loop_inv:
  assumes "P s" and "\<And>j t. i \<le> j \<Longrightarrow> j < n \<Longrightarrow> P t \<Longrightarrow> P (body j t)"
  shows "P (for_loop i n body s)"
proof (cases "i \<le> n")
  case True
  show ?thesis
    using for_loop_rule [of "\<lambda>j. P" i s n body] assms True by simp
next
  case False
  then show ?thesis
    using assms(1) by (simp add: for_loop_done)
qed

lemma for_loop_fst:
  assumes "\<And>j t. i \<le> j \<Longrightarrow> j < n \<Longrightarrow> fst (g j t) = f j (fst t)"
  shows "fst (for_loop i n g t) = for_loop i n f (fst t)"
  using assms
proof (induction i n g t rule: for_loop.induct)
  case (1 i n g t)
  show ?case
  proof (cases "i < n")
    case True
    have "fst (for_loop (i + 1) n g (g i t)) = for_loop (i + 1) n f (fst (g i t))"
      using "1.IH" [OF True] "1.prems" by simp
    then show ?thesis
      using True "1.prems" [of i t] by (simp add: for_loop_unroll)
  next
    case False
    then show ?thesis by (simp add: for_loop_done)
  qed
qed

text \<open>
  A loop that adds one term per iteration computes the sum of the terms.
\<close>

lemma sum_int_step:
  fixes f :: "int \<Rightarrow> real"
  assumes "i \<le> j"
  shows "sum f {i..<j + 1} = sum f {i..<j} + f j"
proof -
  have "{i..<j + 1} = insert j {i..<j}"
    using assms by auto
  then show ?thesis by simp
qed

lemma for_loop_sum:
  fixes f :: "int \<Rightarrow> real"
  shows "for_loop i n (\<lambda>j acc. acc + f j) a = a + sum f {i..<n}"
proof (cases "i \<le> n")
  case True
  have "for_loop i n (\<lambda>j acc. acc + f j) a = a + sum f {i..<n}"
    using _ True
  proof (rule for_loop_rule [where P = "\<lambda>j acc. acc = a + sum f {i..<j}"])
    show "a = a + sum f {i..<i}" by simp
  next
    fix j t
    assume "i \<le> j" "j < n" "t = a + sum f {i..<j}"
    then show "t + f j = a + sum f {i..<j + 1}"
      by (simp add: sum_int_step)
  qed
  then show ?thesis .
next
  case False
  then show ?thesis by (simp add: for_loop_done)
qed

text \<open>
  A loop that writes \<open>buf[j] = f j\<close> for every index of its range.
\<close>

lemma for_loop_fill:
  fixes f :: "int \<Rightarrow> 'a"
  assumes "0 \<le> i"
  shows "length (for_loop i n (\<lambda>j b. b[nat j := f j]) buf) = length buf"
    and "\<forall>j. i \<le> j \<and> j < n \<and> j < int (length buf) \<longrightarrow>
           for_loop i n (\<lambda>j b. b[nat j := f j]) buf ! nat j = f j"
    and "\<forall>p. p < nat i \<or> nat n \<le> p \<longrightarrow>
           for_loop i n (\<lambda>j b. b[nat j := f j]) buf ! p = buf ! p"
proof -
  let ?body = "\<lambda>j b. b[nat j := f j]"
  let ?Q = "\<lambda>m b. length b = length buf
              \<and> (\<forall>j. i \<le> j \<and> j < m \<and> j < int (length buf) \<longrightarrow> b ! nat j = f j)
              \<and> (\<forall>p. p < nat i \<or> nat m \<le> p \<longrightarrow> b ! p = buf ! p)"
  have step: "?Q (j + 1) (?body j t)" if "i \<le> j" "?Q j t" for j t
  proof (intro conjI allI impI)
    show "length (t[nat j := f j]) = length buf"
      using that by simp
  next
    fix j' assume a: "i \<le> j' \<and> j' < j + 1 \<and> j' < int (length buf)"
    show "t[nat j := f j] ! nat j' = f j'"
    proof (cases "j' = j")
      case True
      with a that assms have "nat j < length t" by auto
      with True show ?thesis by simp
    next
      case False
      with a that assms have "nat j' \<noteq> nat j" "t ! nat j' = f j'" by auto
      then show ?thesis by simp
    qed
  next
    fix p assume "p < nat i \<or> nat (j + 1) \<le> p"
    with that assms have "p \<noteq> nat j" "t ! p = buf ! p" by auto
    then show "t[nat j := f j] ! p = buf ! p" by simp
  qed
  have "?Q (max i n) (for_loop i n ?body buf)"
  proof (cases "i \<le> n")
    case True
    have "?Q n (for_loop i n ?body buf)"
      using _ True
    proof (rule for_loop_rule [where P = ?Q])
      show "?Q i buf" by auto
    next
      fix j t assume "i \<le> j" "j < n" "?Q j t"
      then show "?Q (j + 1) (?body j t)" using step by blast
    qed
    with True show ?thesis by (simp add: max_def)
  next
    case False
    then show ?thesis by (auto simp: for_loop_done max_def)
  qed
  then show "length (for_loop i n ?body buf) = length buf"
    and "\<forall>j. i \<le> j \<and> j < n \<and> j < int (length buf) \<longrightarrow> for_loop i n ?body buf ! nat j = f j"
    and "\<forall>p. p < nat i \<or> nat n \<le> p \<longrightarrow> for_loop i n ?body buf ! p = buf ! p"
    by (auto simp: max_def split: if_splits)
qed

section \<open>Single-precision arithmetic\<close>

subsection \<open>Comparisons\<close>

text \<open>
  On values that are not NaN the comparisons are those of a linear order.
\<close>

lemma flt_irrefl: "\<not> flt x x"
  by (cases x) simp_all


lemma flt_asym: "flt x y \<Longrightarrow> \<not> flt y x"
  by (cases x; cases y) simp_all

lemma flt_not_NaN: "flt x y \<Longrightarrow> x \<noteq> NaN \<and> y \<noteq> NaN"
  by (cases x; cases y) simp_all

lemma fle_or_fgt: "x \<noteq> NaN \<Longrightarrow> y \<noteq> NaN \<Longrightarrow> fle x y \<or> fgt x y"
  by (simp add: fle_def fgt_def)


lemma flt_fle_trans: "flt x y \<Longrightarrow> fle y z \<Longrightarrow> flt x z"
  by (cases x; cases y; cases z) (simp_all add: fle_def)

lemma fle_antisym: "fle x y \<Longrightarrow> fle y x \<Longrightarrow> x = y"
  by (cases x; cases y) (simp_all add: fle_def)

subsection \<open>Rounding\<close>

lemma rne_of_int [simp]: "rne (of_int n) = n"
  by (simp add: rne_def)





lemma f32_binade_eq:
  "2 ^ k \<le> a \<Longrightarrow> a < 2 ^ Suc k \<Longrightarrow> k \<le> n \<Longrightarrow> f32_binade n a = k"
proof (induction n arbitrary: a k)
  case 0
  then show ?case by simp
next
  case (Suc n)
  show ?case
  proof (cases k)
    case 0
    with Suc.prems show ?thesis by simp
  next
    case (Suc k')
    have "(2::real) \<le> 2 * 2 ^ k'" by simp
    moreover have "2 * 2 ^ k' \<le> a"
      using Suc Suc.prems(1) by simp
    ultimately have "\<not> a < 2" by linarith
    moreover have "2 ^ k' \<le> a / 2" "a / 2 < 2 ^ Suc k'" "k' \<le> n"
      using Suc Suc.prems by auto
    ultimately have "\<not> a < 2" "2 ^ k' \<le> a / 2" "a / 2 < 2 ^ Suc k'" "k' \<le> n"
      by simp_all
    with Suc.IH [of k' "a / 2"] Suc show ?thesis by simp
  qed
qed


lemma f32_round_zero [simp]: "f32_round 0 = Fin 0"
  by (simp add: f32_round_def Let_def rne_def)




text \<open>
  Rounding a given number: with the binade \<open>k\<close> of \<open>x\<close> at hand, \<open>f32_round x\<close> is a
  computation on rationals.
\<close>

lemma f32_round_eval:
  assumes "2 ^ k \<le> \<bar>x\<bar> * 2 ^ 126" and "\<bar>x\<bar> * 2 ^ 126 < 2 ^ Suc k" and "k \<le> 253"
  shows "f32_round x =
           (let q = 2 ^ k / 2 ^ 149; r = of_int (rne (x / q)) * q
            in if 2 ^ 128 \<le> r then PInf else if r \<le> - (2 ^ 128) then NInf else Fin r)"
  using f32_binade_eq [OF assms] by (simp add: f32_round_def f32_quantum_def)







subsection \<open>Signs\<close>






section \<open>Autocorrelation\<close>

lemma autocorr_sum_eq: "autocorr_sum x N l = autocorr_spec x N l"
proof -
  have "{0..<N - l} = {0..N - l - 1}" by auto
  then show ?thesis
    by (simp add: autocorr_sum_def autocorr_spec_def for_loop_sum)
qed

lemma autocorr_nth:
  assumes "0 \<le> l" and "l \<le> order" and "order < int (length r)"
  shows "autocorr r x N order ! nat l = autocorr_sum x N l"
  using for_loop_fill(2) [where i = 0 and n = "order + 1" and f = "autocorr_sum x N" and buf = r] assms
  by (simp add: autocorr_def)

text \<open>
  C7. For a frame \<open>x\<close> of \<open>N\<close> samples and an output buffer that holds \<open>order + 1\<close>
  values, \<^verbatim>\<open>autocorr\<close> stores in \<open>r[l]\<close>, for every lag \<open>0 \<le> l \<le> order\<close>, the sum of
  \<open>x[n] * x[n + l]\<close> for \<open>n\<close> from \<open>0\<close> to \<open>N - l - 1\<close>. Hence \<open>r[0] \<ge> 0\<close>, and for an
  all-zero frame every \<open>r[l]\<close> is zero.
\<close>

theorem autocorr_correct:
  assumes "order < int (length r)" and "N \<le> int (length x)"
  shows "(\<forall>l. 0 \<le> l \<and> l \<le> order \<longrightarrow>
            autocorr r x N order ! nat l = (\<Sum>n = 0..N - l - 1. x ! nat n * x ! nat (n + l)))
         \<and> (0 \<le> order \<longrightarrow> 0 \<le> autocorr r x N order ! 0)
         \<and> ((\<forall>n. 0 \<le> n \<and> n < N \<longrightarrow> x ! nat n = 0) \<longrightarrow>
              (\<forall>l. 0 \<le> l \<and> l \<le> order \<longrightarrow> autocorr r x N order ! nat l = 0))"
proof (intro conjI allI impI)
  fix l assume "0 \<le> l \<and> l \<le> order"
  then show "autocorr r x N order ! nat l = (\<Sum>n = 0..N - l - 1. x ! nat n * x ! nat (n + l))"
    using autocorr_nth [of l order r x N] assms(1)
    by (simp add: autocorr_sum_eq autocorr_spec_def)
next
  assume "0 \<le> order"
  then have "autocorr r x N order ! nat 0 = autocorr_spec x N 0"
    using autocorr_nth [of 0 order r x N] assms(1) by (simp add: autocorr_sum_eq)
  moreover have "0 \<le> autocorr_spec x N 0"
    unfolding autocorr_spec_def by (rule sum_nonneg) simp
  ultimately show "0 \<le> autocorr r x N order ! 0" by simp
next
  fix l assume z: "\<forall>n. 0 \<le> n \<and> n < N \<longrightarrow> x ! nat n = 0" and l: "0 \<le> l \<and> l \<le> order"
  have "autocorr_spec x N l = 0"
    unfolding autocorr_spec_def
  proof (rule sum.neutral, rule ballI)
    fix n assume "n \<in> {0..N - l - 1}"
    with l have "0 \<le> n \<and> n < N" by simp
    with z show "x ! nat n * x ! nat (n + l) = 0" by simp
  qed
  then show "autocorr r x N order ! nat l = 0"
    using autocorr_nth [of l order r x N] assms(1) l by (simp add: autocorr_sum_eq)
qed

theorem autocorr_correct_witness:
  "autocorr [9, 9] [1, 2, 3] 3 1 ! 0 = 14 \<and> autocorr [9, 9] [1, 2, 3] 3 1 ! 1 = 8
   \<and> autocorr [9, 9] [0, 0, 0] 3 1 ! 1 = 0"
proof -
  have s: "{0..2::int} = {0, 1, 2}" "{0..1::int} = {0, 1}" by auto
  have l: "(1::int) < int (length [9, 9::real])" "(3::int) \<le> int (length [1, 2, 3::real])"
    "(3::int) \<le> int (length [0, 0, 0::real])" by simp_all
  note a = autocorr_correct [OF l(1) l(2), THEN conjunct1, THEN spec]
  note b = autocorr_correct [OF l(1) l(3), THEN conjunct2, THEN conjunct2]
  have z: "\<forall>n. 0 \<le> n \<and> n < 3 \<longrightarrow> [0, 0, 0::real] ! nat n = 0"
    by (auto simp: nth_Cons' )
  have "autocorr [9, 9] [1, 2, 3] 3 1 ! 0 = 14"
    using a [of 0] by (simp add: s)
  moreover have "autocorr [9, 9] [1, 2, 3] 3 1 ! 1 = 8"
    using a [of 1] by (simp add: s)
  moreover have "autocorr [9, 9] [0, 0, 0] 3 1 ! 1 = 0"
    using b z by (auto dest!: spec [of _ 1])
  ultimately show ?thesis by simp
qed

section \<open>Levinson-Durbin recursion on degenerate input\<close>

text \<open>
  C3. When \<open>r[0] < EPS\<close> and \<open>order \<ge> 1\<close>, \<^verbatim>\<open>levdurb\<close> returns \<open>a[0] = 1\<close>,
  \<open>a[1..order]\<close> all zero and \<open>k[0..order-1]\<close> all zero. The function has no error result,
  and on this input the model returns the two buffers: no division is reached.
\<close>

theorem levdurb_degenerate:
  assumes "r ! 0 < EPS" and "1 \<le> order" and "order < int (length a)"
    and "order \<le> int (length k)"
  shows "\<exists>a' k'. levdurb EPS a k r order = Inr (a', k')
           \<and> a' ! 0 = 1
           \<and> (\<forall>i. 1 \<le> i \<and> i \<le> order \<longrightarrow> a' ! nat i = 0)
           \<and> (\<forall>i. 0 \<le> i \<and> i < order \<longrightarrow> k' ! nat i = 0)"
proof -
  let ?body = "\<lambda>i (a, k). let k = k[nat i := 0]; a = a[nat (i + 1) := 0] in (a, k)"
  let ?P = "\<lambda>j s. length (fst s) = length a \<and> length (snd s) = length k \<and> fst s ! 0 = (1::real)
              \<and> (\<forall>i. 1 \<le> i \<and> i \<le> j \<longrightarrow> fst s ! nat i = (0::real))
              \<and> (\<forall>i. 0 \<le> i \<and> i < j \<longrightarrow> snd s ! nat i = (0::real))"
  have run: "levdurb EPS a k r order = Inr (for_loop 0 order ?body (a[0 := 1], k))"
    using assms(1) by (simp add: levdurb_def)
  have "?P order (for_loop 0 order ?body (a[0 := 1], k))"
  proof (rule for_loop_rule [where P = ?P])
    have "0 < length a" using assms(2,3) by auto
    then show "?P 0 (a[0 := 1], k)" by simp
  next
    show "0 \<le> order" using assms(2) by simp
  next
    fix j t
    assume j: "0 \<le> j" "j < order" and t: "?P j t"
    obtain a' k' where s: "t = (a', k')" by (cases t) auto
    have b: "nat j < length k'" "nat (j + 1) < length a'" "nat (j + 1) \<noteq> 0"
      using j t s assms(3,4) by auto
    have "a'[nat (j + 1) := 0] ! nat i = 0" if "1 \<le> i \<and> i \<le> j + 1" for i
    proof (cases "i = j + 1")
      case True
      with b show ?thesis by simp
    next
      case False
      with that j have "nat i \<noteq> nat (j + 1)" "1 \<le> i \<and> i \<le> j" by auto
      with t s show ?thesis by simp
    qed
    moreover have "k'[nat j := 0] ! nat i = 0" if "0 \<le> i \<and> i < j + 1" for i
    proof (cases "i = j")
      case True
      with b show ?thesis by simp
    next
      case False
      with that j have "nat i \<noteq> nat j" "0 \<le> i \<and> i < j" by auto
      with t s show ?thesis by simp
    qed
    moreover have "a'[nat (j + 1) := 0] ! 0 = 1"
      using b(3) t s by (simp del: nat_add_distrib)
    ultimately show "?P (j + 1) (?body j t)"
      using t s by (simp add: Let_def)
  qed
  then show ?thesis
    unfolding run by (intro exI [of _ "fst (for_loop 0 order ?body (a[0 := 1], k))"]
        exI [of _ "snd (for_loop 0 order ?body (a[0 := 1], k))"]) simp
qed

theorem levdurb_degenerate_witness:
  "\<exists>a' k'. levdurb (1 / 1000) [9, 9, 9] [9, 9] [0, 1 / 2, 1 / 4] 2 = Inr (a', k')
     \<and> a' ! 0 = 1 \<and> a' ! 2 = 0 \<and> k' ! 1 = 0"
proof -
  have h: "[0, 1 / 2, 1 / 4] ! 0 < (1 / 1000 :: real)" "(1::int) \<le> 2"
    "(2::int) < int (length [9, 9, 9::real])" "(2::int) \<le> int (length [9, 9::real])"
    by simp_all
  from levdurb_degenerate [OF h] obtain a' k' where
    t: "levdurb (1 / 1000) [9, 9, 9] [9, 9] [0, 1 / 2, 1 / 4] 2 = Inr (a', k')" "a' ! 0 = 1"
      "\<forall>i. 1 \<le> i \<and> i \<le> 2 \<longrightarrow> a' ! nat i = 0" "\<forall>i. 0 \<le> i \<and> i < 2 \<longrightarrow> k' ! nat i = 0"
    by blast
  have "a' ! 2 = 0" using t(3) [THEN spec, of 2] by simp
  moreover have "k' ! 1 = 0" using t(4) [THEN spec, of 1] by simp
  ultimately show ?thesis using t(1,2) by blast
qed

section \<open>Interpolation\<close>

text \<open>
  C8. For vectors \<open>in1\<close>, \<open>in2\<close> and an output buffer of the same length,
  \<^verbatim>\<open>interpolate\<close> computes \<open>out[i] = coef * in1[i] + (1 - coef) * in2[i]\<close> for every
  index; for \<open>coef = 1\<close> the output is \<open>in1\<close>, for \<open>coef = 0\<close> it is \<open>in2\<close>.
\<close>

theorem interpolate_correct:
  assumes "int (length in1) = length'" and "int (length in2) = length'"
    and "int (length out) = length'"
  shows "(\<forall>i. 0 \<le> i \<and> i < length' \<longrightarrow>
            interpolate out in1 in2 coef length' ! nat i
              = coef * in1 ! nat i + (1 - coef) * in2 ! nat i)
         \<and> (coef = 1 \<longrightarrow> interpolate out in1 in2 coef length' = in1)
         \<and> (coef = 0 \<longrightarrow> interpolate out in1 in2 coef length' = in2)"
proof -
  let ?f = "\<lambda>i. coef * in1 ! nat i + (1 - coef) * in2 ! nat i"
  have def: "interpolate out in1 in2 coef length' = for_loop 0 length' (\<lambda>i b. b[nat i := ?f i]) out"
    by (simp add: interpolate_def)
  have len: "length (interpolate out in1 in2 coef length') = length out"
    unfolding def by (rule for_loop_fill(1)) simp
  have nth: "interpolate out in1 in2 coef length' ! nat i = ?f i" if "0 \<le> i" "i < length'" for i
    unfolding def using for_loop_fill(2) [where i = 0 and n = length' and f = ?f and buf = out] that assms(3)
    by simp
  have "interpolate out in1 in2 coef length' = in1" if "coef = 1"
  proof (rule nth_equalityI)
    show "length (interpolate out in1 in2 coef length') = length in1"
      using len assms by simp
  next
    fix p assume "p < length (interpolate out in1 in2 coef length')"
    then have "0 \<le> int p" "int p < length'" using len assms by simp_all
    from nth [OF this] that show "interpolate out in1 in2 coef length' ! p = in1 ! p" by simp
  qed
  moreover have "interpolate out in1 in2 coef length' = in2" if "coef = 0"
  proof (rule nth_equalityI)
    show "length (interpolate out in1 in2 coef length') = length in2"
      using len assms by simp
  next
    fix p assume "p < length (interpolate out in1 in2 coef length')"
    then have "0 \<le> int p" "int p < length'" using len assms by simp_all
    from nth [OF this] that show "interpolate out in1 in2 coef length' ! p = in2 ! p" by simp
  qed
  ultimately show ?thesis using nth by simp
qed

theorem interpolate_correct_witness:
  "interpolate [9, 9] [1, 2] [3, 4] (1 / 4) 2 ! 1 = 7 / 2
   \<and> interpolate [9, 9] [1, 2] [3, 4] 1 2 = [1, 2]
   \<and> interpolate [9, 9] [1, 2] [3, 4] 0 2 = [3, 4]"
proof -
  have l: "int (length [1, 2::real]) = 2" "int (length [3, 4::real]) = 2"
    "int (length [9, 9::real]) = 2" by simp_all
  note t = interpolate_correct [OF l]
  have "interpolate [9, 9] [1, 2] [3, 4] (1 / 4) 2 ! 1 = 7 / 2"
    using t [of "1 / 4", THEN conjunct1, THEN spec, of 1] by simp
  moreover have "interpolate [9, 9] [1, 2] [3, 4] 1 2 = [1, 2]"
    using t [of 1] by simp
  moreover have "interpolate [9, 9] [1, 2] [3, 4] 0 2 = [3, 4]"
    using t [of 0] by simp
  ultimately show ?thesis by simp
qed

section \<open>Vector quantization\<close>











section \<open>Scalar quantization in exact arithmetic\<close>

lemma read_at_in_range:
  "0 \<le> i \<Longrightarrow> i < int (length buf) \<Longrightarrow> read_at buf i = Inr (buf ! nat i)"
  by (simp add: read_at_def)

lemma read_at_negative: "i < 0 \<Longrightarrow> read_at buf i = Inl (OutOfBounds i)"
  by (simp add: read_at_def)






section \<open>Scalar quantization in single precision\<close>

lemma sort_sq_f32_scan_result:
  assumes "0 \<le> i" and "i < int (length cb)" and "cb_size \<le> int (length cb)"
  shows "\<exists>r. sort_sq_f32_scan x cb cb_size i = Inr r \<and> i \<le> r \<and> r < int (length cb)
           \<and> (i \<le> cb_size - 1 \<longrightarrow> r \<le> cb_size - 1)
           \<and> (\<forall>j. i \<le> j \<and> j < r \<longrightarrow> fgt x (cb ! nat j))
           \<and> (\<not> fgt x (cb ! nat r) \<or> cb_size - 1 \<le> r)"
  using assms
proof (induction x cb cb_size i rule: sort_sq_f32_scan.induct)
  case (1 x cb cb_size i)
  have rd: "read_at cb i = Inr (cb ! nat i)"
    using "1.prems" by (simp add: read_at_in_range)
  show ?case
  proof (cases "fgt x (cb ! nat i) \<and> i < cb_size - 1")
    case True
    then have "0 \<le> i + 1" "i + 1 < int (length cb)"
      using "1.prems" by auto
    from "1.IH" [OF rd _ this "1.prems"(3)] True
    obtain r where r: "sort_sq_f32_scan x cb cb_size (i + 1) = Inr r" "i + 1 \<le> r"
      "r < int (length cb)" "i + 1 \<le> cb_size - 1 \<longrightarrow> r \<le> cb_size - 1"
      "\<forall>j. i + 1 \<le> j \<and> j < r \<longrightarrow> fgt x (cb ! nat j)" "\<not> fgt x (cb ! nat r) \<or> cb_size - 1 \<le> r"
      by auto
    have step: "sort_sq_f32_scan x cb cb_size i = Inr r"
      using True rd r(1) by (subst sort_sq_f32_scan.simps) simp
    have passed: "\<forall>j. i \<le> j \<and> j < r \<longrightarrow> fgt x (cb ! nat j)"
    proof (intro allI impI)
      fix j assume j: "i \<le> j \<and> j < r"
      show "fgt x (cb ! nat j)"
      proof (cases "j = i")
        case True
        with \<open>fgt x (cb ! nat i) \<and> i < cb_size - 1\<close> show ?thesis by simp
      next
        case False
        with j r(5) show ?thesis by auto
      qed
    qed
    show ?thesis
      using step r True passed by auto
  next
    case False
    have "sort_sq_f32_scan x cb cb_size i = Inr i"
      using False rd by (subst sort_sq_f32_scan.simps) auto
    then show ?thesis
      using False "1.prems" by auto
  qed
qed

lemma sort_sq_f32_above_first:
  assumes "2 \<le> cb_size" and "int (length cb) = cb_size" and "fgt x (cb ! 0)"
  shows "\<exists>r. 1 \<le> r \<and> r \<le> cb_size - 1
           \<and> (\<forall>j. 0 \<le> j \<and> j < r \<longrightarrow> fgt x (cb ! nat j))
           \<and> (\<not> fgt x (cb ! nat r) \<or> r = cb_size - 1)
           \<and> sort_sq_f32 x cb cb_size =
               (if fgt x (fhalf (fadd (cb ! nat r) (cb ! nat (r - 1)))) then Inr (cb ! nat r, r)
                else Inr (cb ! nat (r - 1), r - 1))"
proof -
  have len: "(0::int) < int (length cb)" "cb_size \<le> int (length cb)"
    using assms by auto
  obtain r where r: "sort_sq_f32_scan x cb cb_size 0 = Inr r" "0 \<le> r" "r < int (length cb)"
      "r \<le> cb_size - 1" "\<forall>j. 0 \<le> j \<and> j < r \<longrightarrow> fgt x (cb ! nat j)"
      "\<not> fgt x (cb ! nat r) \<or> cb_size - 1 \<le> r"
    using sort_sq_f32_scan_result [OF _ len, of x] assms(1) by auto
  have "r \<noteq> 0"
    using r(6) assms by auto
  with r(2) have r1: "1 \<le> r" by simp
  have rd0: "read_at cb 0 = Inr (cb ! 0)"
    using len by (simp add: read_at_def)
  have rdr: "read_at cb r = Inr (cb ! nat r)"
    using r by (simp add: read_at_in_range)
  have rdp: "read_at cb (r - 1) = Inr (cb ! nat (r - 1))"
    using r r1 by (simp add: read_at_in_range)
  have nle: "\<not> fle x (cb ! 0)"
    using assms(3) by (simp add: fle_def fgt_def)
  have "sort_sq_f32 x cb cb_size =
          (if fgt x (fhalf (fadd (cb ! nat r) (cb ! nat (r - 1)))) then Inr (cb ! nat r, r)
           else Inr (cb ! nat (r - 1), r - 1))"
    using nle by (simp add: sort_sq_f32_def rd0 r(1) rdr rdp)
  with r r1 show ?thesis by auto
qed

lemma sort_sq_f32_below_first:
  assumes "1 \<le> cb_size" and "int (length cb) = cb_size" and "fle x (cb ! 0)"
  shows "sort_sq_f32 x cb cb_size = Inr (cb ! 0, 0)"
proof -
  have "read_at cb 0 = Inr (cb ! 0)"
    using assms by (simp add: read_at_def)
  then show ?thesis
    using assms(3) by (simp add: sort_sq_f32_def)
qed

text \<open>
  When \<open>x\<close> or \<open>cb[0]\<close> is NaN, both \<^verbatim>\<open>x <= cb[0]\<close> and \<^verbatim>\<open>x > cb[0]\<close> are false: the
  scan stops at \<open>i = 0\<close> and the midpoint comparison reads \<^verbatim>\<open>cb[-1]\<close>.
\<close>

lemma sort_sq_f32_unordered:
  assumes "1 \<le> cb_size" and "int (length cb) = cb_size" and "x = NaN \<or> cb ! 0 = NaN"
  shows "sort_sq_f32 x cb cb_size = Inl (OutOfBounds (- 1))"
proof -
  have rd0: "read_at cb 0 = Inr (cb ! 0)"
    using assms by (simp add: read_at_def)
  have cmp: "\<not> fle x (cb ! 0)" "\<not> fgt x (cb ! 0)"
    using assms(3) flt_not_NaN [of "cb ! 0" x] by (auto simp: fle_def fgt_def)
  have scan: "sort_sq_f32_scan x cb cb_size 0 = Inr 0"
    using rd0 cmp by (subst sort_sq_f32_scan.simps) simp
  show ?thesis
    using cmp by (simp add: sort_sq_f32_def rd0 scan read_at_negative)
qed

text \<open>
  C10, as the code has it. With a codebook of at least two entries whose first entry is not
  NaN, and an \<open>x\<close> that is not NaN, every read of \<^verbatim>\<open>sort_sq\<close> is inside the buffer (the call
  returns a result). When \<open>x\<close> or \<open>cb[0]\<close> is NaN, for every size of the codebook, and when
  the codebook has one entry and \<open>x > cb[0]\<close>, the scan ends at \<open>i = 0\<close> and the midpoint
  comparison reads \<^verbatim>\<open>cb[-1]\<close>.
\<close>

theorem sort_sq_f32_reads:
  "(2 \<le> cb_size \<and> int (length cb) = cb_size \<and> x \<noteq> NaN \<and> cb ! 0 \<noteq> NaN \<longrightarrow>
      (\<exists>v. sort_sq_f32 x cb cb_size = Inr v))
   \<and> (1 \<le> cb_size \<and> int (length cb) = cb_size \<and> (x = NaN \<or> cb ! 0 = NaN) \<longrightarrow>
        sort_sq_f32 x cb cb_size = Inl (OutOfBounds (- 1)))
   \<and> (cb_size = 1 \<and> length cb = 1 \<and> fgt x (cb ! 0) \<longrightarrow>
        sort_sq_f32 x cb cb_size = Inl (OutOfBounds (- 1)))"
proof (intro conjI impI)
  assume a: "2 \<le> cb_size \<and> int (length cb) = cb_size \<and> x \<noteq> NaN \<and> cb ! 0 \<noteq> NaN"
  show "\<exists>v. sort_sq_f32 x cb cb_size = Inr v"
  proof (cases "fle x (cb ! 0)")
    case True
    with a show ?thesis
      using sort_sq_f32_below_first [of cb_size cb x] by auto
  next
    case False
    with a have "fgt x (cb ! 0)"
      using fle_or_fgt [of x "cb ! 0"] by simp
    with a obtain r where
      "sort_sq_f32 x cb cb_size =
         (if fgt x (fhalf (fadd (cb ! nat r) (cb ! nat (r - 1)))) then Inr (cb ! nat r, r)
          else Inr (cb ! nat (r - 1), r - 1))"
      using sort_sq_f32_above_first [of cb_size cb x] by auto
    then show ?thesis by auto
  qed
next
  assume "1 \<le> cb_size \<and> int (length cb) = cb_size \<and> (x = NaN \<or> cb ! 0 = NaN)"
  then show "sort_sq_f32 x cb cb_size = Inl (OutOfBounds (- 1))"
    using sort_sq_f32_unordered by blast
next
  assume a: "cb_size = 1 \<and> length cb = 1 \<and> fgt x (cb ! 0)"
  have rd0: "read_at cb 0 = Inr (cb ! 0)"
    using a by (simp add: read_at_def)
  have scan: "sort_sq_f32_scan x cb 1 0 = Inr 0"
    using rd0 by (subst sort_sq_f32_scan.simps) simp
  have "\<not> fle x (cb ! 0)"
    using a by (simp add: fle_def fgt_def)
  then show "sort_sq_f32 x cb cb_size = Inl (OutOfBounds (- 1))"
    using a by (simp add: sort_sq_f32_def rd0 scan read_at_negative)
qed

theorem sort_sq_f32_reads_witness:
  "(\<exists>v. sort_sq_f32 (Fin 5) [Fin 1, Fin 2, Fin 4] 3 = Inr v)
   \<and> sort_sq_f32 NaN [Fin 1, Fin 2, Fin 4] 3 = Inl (OutOfBounds (- 1))
   \<and> sort_sq_f32 (Fin 5) [Fin 1] 1 = Inl (OutOfBounds (- 1))"
  using sort_sq_f32_reads [of 3 "[Fin 1, Fin 2, Fin 4]" "Fin 5"]
    sort_sq_f32_reads [of 3 "[Fin 1, Fin 2, Fin 4]" NaN]
    sort_sq_f32_reads [of 1 "[Fin 1]" "Fin 5"]
  by (simp add: fgt_def)

text \<open>
  The claim for every \<open>x\<close> fails at NaN: with the ascending codebook \<open>[1, 2]\<close> the read of
  \<^verbatim>\<open>cb[i - 1]\<close> is at index \<open>-1\<close>.
\<close>

theorem sort_sq_f32_NaN_counterexample:
  "sort_sq_f32 NaN [Fin 1, Fin 2] 2 = Inl (OutOfBounds (- 1))"
  by (simp add: sort_sq_f32_def sort_sq_f32_scan.simps read_at_def fle_def fgt_def)

text \<open>
  C6, as the code computes it. For a strictly ascending codebook of \<open>cb_size \<ge> 1\<close> entries,
  none of them NaN: quantizing \<open>cb[0]\<close>, or any \<open>x \<le> cb[0]\<close>, returns index \<open>0\<close> and value
  \<open>cb[0]\<close>; quantizing \<open>cb[j]\<close> with \<open>j \<ge> 1\<close> returns index \<open>j\<close> and value \<open>cb[j]\<close> when the
  midpoint of \<open>cb[j]\<close> and \<open>cb[j-1]\<close>, as single precision computes it, is strictly below
  \<open>cb[j]\<close>, and index \<open>j - 1\<close> with value \<open>cb[j-1]\<close> otherwise.
\<close>

theorem sort_sq_f32_round_trip:
  assumes "1 \<le> cb_size" and "int (length cb) = cb_size"
    and "\<forall>i < length cb. cb ! i \<noteq> NaN"
    and "\<forall>i j. i < j \<and> j < length cb \<longrightarrow> flt (cb ! i) (cb ! j)"
  shows "sort_sq_f32 (cb ! 0) cb cb_size = Inr (cb ! 0, 0)
         \<and> (\<forall>j. 1 \<le> j \<and> j < cb_size \<longrightarrow>
              sort_sq_f32 (cb ! nat j) cb cb_size =
                (if flt (fhalf (fadd (cb ! nat j) (cb ! nat (j - 1)))) (cb ! nat j)
                 then Inr (cb ! nat j, j) else Inr (cb ! nat (j - 1), j - 1)))
         \<and> (\<forall>x. fle x (cb ! 0) \<longrightarrow> sort_sq_f32 x cb cb_size = Inr (cb ! 0, 0))"
proof (intro conjI allI impI)
  have "0 < length cb"
    using assms(1,2) by auto
  with assms(3) have "cb ! 0 \<noteq> NaN"
    by blast
  then have "fle (cb ! 0) (cb ! 0)"
    by (simp add: fle_def flt_irrefl)
  then show "sort_sq_f32 (cb ! 0) cb cb_size = Inr (cb ! 0, 0)"
    by (rule sort_sq_f32_below_first [OF assms(1,2)])
next
  fix x
  assume "fle x (cb ! 0)"
  then show "sort_sq_f32 x cb cb_size = Inr (cb ! 0, 0)"
    by (rule sort_sq_f32_below_first [OF assms(1,2)])
next
  fix j :: int
  assume j: "1 \<le> j \<and> j < cb_size"
  have less: "flt (cb ! a) (cb ! b)" if "a < b" "b < length cb" for a b
    using assms(4) that by blast
  have "nat 0 < nat j" "nat j < length cb"
    using j assms(2) by auto
  then have first: "fgt (cb ! nat j) (cb ! 0)"
    using less [of 0 "nat j"] by (simp add: fgt_def)
  have size2: "2 \<le> cb_size"
    using j by simp
  obtain r where r: "1 \<le> r" "r \<le> cb_size - 1"
      "\<forall>i. 0 \<le> i \<and> i < r \<longrightarrow> fgt (cb ! nat j) (cb ! nat i)"
      "\<not> fgt (cb ! nat j) (cb ! nat r) \<or> r = cb_size - 1"
      "sort_sq_f32 (cb ! nat j) cb cb_size =
         (if fgt (cb ! nat j) (fhalf (fadd (cb ! nat r) (cb ! nat (r - 1))))
          then Inr (cb ! nat r, r) else Inr (cb ! nat (r - 1), r - 1))"
    using sort_sq_f32_above_first [OF size2 assms(2) first] by blast
  have "\<not> j < r"
  proof
    assume "j < r"
    with r(3) j have "fgt (cb ! nat j) (cb ! nat j)" by simp
    then show False by (simp add: fgt_def flt_irrefl)
  qed
  moreover have "\<not> r < j"
  proof
    assume "r < j"
    then have "flt (cb ! nat r) (cb ! nat j)"
      using less [of "nat r" "nat j"] r(1) j assms(2) by auto
    with r(4) have "r = cb_size - 1" by (simp add: fgt_def)
    with \<open>r < j\<close> j show False by simp
  qed
  ultimately have rj: "r = j" by simp
  show "sort_sq_f32 (cb ! nat j) cb cb_size =
          (if flt (fhalf (fadd (cb ! nat j) (cb ! nat (j - 1)))) (cb ! nat j)
           then Inr (cb ! nat j, j) else Inr (cb ! nat (j - 1), j - 1))"
    using r(5) unfolding rj by (simp add: fgt_def)
qed

theorem sort_sq_f32_round_trip_witness:
  "sort_sq_f32 (Fin 4) [Fin 0, Fin 2, Fin 4, Fin 8] 4 = Inr (Fin 4, 2)
   \<and> sort_sq_f32 (Fin (- 1)) [Fin 0, Fin 2, Fin 4, Fin 8] 4 = Inr (Fin 0, 0)"
proof -
  let ?cb = "[Fin 0, Fin 2, Fin 4, Fin 8]"
  have a: "(1::int) \<le> 4" by simp
  have b: "int (length ?cb) = 4" by simp
  have four: "i = 0 \<or> i = 1 \<or> i = 2 \<or> i = 3" if "i < 4" for i :: nat
    using that by arith
  have c: "\<forall>i < length ?cb. ?cb ! i \<noteq> NaN"
    by (auto simp: less_Suc_eq)
  have d: "\<forall>i j. i < j \<and> j < length ?cb \<longrightarrow> flt (?cb ! i) (?cb ! j)"
  proof (intro allI impI)
    fix i j :: nat assume "i < j \<and> j < length ?cb"
    then have "j < 4" "i < 4" "i < j" by simp_all
    with four [of i] four [of j] show "flt (?cb ! i) (?cb ! j)"
      by auto
  qed
  note rt = sort_sq_f32_round_trip [OF a b c d]
  have s: "fadd (Fin 4) (Fin 2) = Fin 6"
    unfolding fadd.simps
    by (subst f32_round_eval [where k = 128]) (simp_all add: rne_def Let_def)
  have h: "fhalf (Fin 6) = Fin 3"
    unfolding fhalf.simps
    by (subst f32_round_eval [where k = 127]) (simp_all add: rne_def Let_def)
  have "sort_sq_f32 (Fin 4) ?cb 4 = Inr (Fin 4, 2)"
    using rt [THEN conjunct2, THEN conjunct1, THEN spec, of 2]
    by (simp add: s h del: fadd.simps fhalf.simps)
  moreover have "sort_sq_f32 (Fin (- 1)) ?cb 4 = Inr (Fin 0, 0)"
    using rt [THEN conjunct2, THEN conjunct2, THEN spec, of "Fin (- 1)"] by (simp add: fle_def)
  ultimately show ?thesis by simp
qed

text \<open>
  The round trip for every strictly ascending codebook fails. \<open>1 + 2^-23\<close> and \<open>1 + 2^-22\<close>
  are two consecutive binary32 numbers; their sum \<open>2 + 3 * 2^-23\<close> lies halfway between two
  binary32 numbers and is rounded to the even one, \<open>2 + 2^-21\<close>, whose half is \<open>1 + 2^-22\<close>.
  Quantizing \<open>x = cb[1]\<close> then finds \<open>x\<close> not above the midpoint and returns index \<open>0\<close>.
\<close>

lemma f32_adjacent_sum: "fadd (Fin (1 + 1 / 2 ^ 22)) (Fin (1 + 1 / 2 ^ 23)) = Fin (2 + 1 / 2 ^ 21)"
  unfolding fadd.simps
  by (subst f32_round_eval [where k = 127]) (simp_all add: rne_def Let_def)

lemma f32_adjacent_half: "fhalf (Fin (2 + 1 / 2 ^ 21)) = Fin (1 + 1 / 2 ^ 22)"
  unfolding fhalf.simps
  by (subst f32_round_eval [where k = 126]) (simp_all add: rne_def Let_def)

lemma f32_adjacent_repr:
  "f32_round (1 + 1 / 2 ^ 23) = Fin (1 + 1 / 2 ^ 23)"
  "f32_round (1 + 1 / 2 ^ 22) = Fin (1 + 1 / 2 ^ 22)"
  by (subst f32_round_eval [where k = 126], simp_all add: rne_def Let_def)+

theorem sort_sq_f32_round_trip_counterexample:
  "f32_round (1 + 1 / 2 ^ 23) = Fin (1 + 1 / 2 ^ 23)
   \<and> f32_round (1 + 1 / 2 ^ 22) = Fin (1 + 1 / 2 ^ 22)
   \<and> flt (Fin (1 + 1 / 2 ^ 23)) (Fin (1 + 1 / 2 ^ 22))
   \<and> sort_sq_f32 (Fin (1 + 1 / 2 ^ 22)) [Fin (1 + 1 / 2 ^ 23), Fin (1 + 1 / 2 ^ 22)] 2
       = Inr (Fin (1 + 1 / 2 ^ 23), 0)"
proof -
  define a b :: real where "a = 1 + 1 / 2 ^ 23" and "b = 1 + 1 / 2 ^ 22"
  have lt: "a < b" "\<not> b < a"
    by (simp_all add: a_def b_def)
  have mid: "fhalf (fadd (Fin b) (Fin a)) = Fin b"
    unfolding a_def b_def f32_adjacent_sum f32_adjacent_half ..
  have "sort_sq_f32 (Fin b) [Fin a, Fin b] 2 = Inr (Fin a, 0)"
    by (simp add: sort_sq_f32_def sort_sq_f32_scan.simps read_at_def fle_def fgt_def lt mid
        del: fadd.simps fhalf.simps)
  then show ?thesis
    using f32_adjacent_repr lt unfolding a_def b_def by simp
qed

section \<open>Stability of LSF coefficients\<close>

subsection \<open>The separation step in single precision\<close>




subsection \<open>The three steps of the loop body in exact arithmetic\<close>

text \<open>
  Each step either leaves the table and the flag as they are, in which case its condition
  did not hold, or changes the table and sets the flag.
\<close>

lemma LSF_separate_cases:
  assumes "0 \<le> pos" and "pos + 1 < int (length l)" and "LSF_separate pos (l, c) = (l1, c1)"
  shows "length l1 = length l"
    and "(l1 = l \<and> c1 = c \<and> eps \<le> l ! nat (pos + 1) - l ! nat pos) \<or> (l1 \<noteq> l \<and> c1 = 1)"
    and "\<forall>p. p \<noteq> nat pos \<and> p \<noteq> nat (pos + 1) \<longrightarrow> l1 ! p = l ! p"
proof -
  have np: "nat (pos + 1) = Suc (nat pos)" "nat pos < length l" "Suc (nat pos) < length l"
    using assms(1,2) by auto
  show "length l1 = length l"
    using assms(3) by (auto simp: LSF_separate_def Let_def split: if_splits)
  show "\<forall>p. p \<noteq> nat pos \<and> p \<noteq> nat (pos + 1) \<longrightarrow> l1 ! p = l ! p"
    using assms(3) by (auto simp: LSF_separate_def Let_def split: if_splits)
  show "(l1 = l \<and> c1 = c \<and> eps \<le> l ! nat (pos + 1) - l ! nat pos) \<or> (l1 \<noteq> l \<and> c1 = 1)"
  proof (cases "l ! nat (pos + 1) - l ! nat pos < eps")
    case False
    then show ?thesis
      using assms(3) by (simp add: LSF_separate_def)
  next
    case True
    show ?thesis
    proof (cases "l ! nat (pos + 1) < l ! nat pos")
      case inv: True
      have "l1 ! Suc (nat pos) = l ! nat pos + eps2" "c1 = 1"
        using assms(3) True inv np by (auto simp: LSF_separate_def Let_def)
      then have "l1 ! Suc (nat pos) \<noteq> l ! Suc (nat pos)" "c1 = 1"
        using inv np by (auto simp: eps2_def)
      then show ?thesis by auto
    next
      case ninv: False
      have "l1 ! nat pos = l ! nat pos - eps2" "c1 = 1"
        using assms(3) True ninv np by (auto simp: LSF_separate_def Let_def)
      then have "l1 ! nat pos \<noteq> l ! nat pos" "c1 = 1"
        by (auto simp: eps2_def)
      then show ?thesis by auto
    qed
  qed
qed

lemma LSF_clamp_min_cases:
  assumes "0 \<le> pos" and "pos < int (length l)" and "LSF_clamp_min pos (l, c) = (l1, c1)"
  shows "length l1 = length l"
    and "(l1 = l \<and> c1 = c \<and> minlsf \<le> l ! nat pos) \<or> (l1 \<noteq> l \<and> c1 = 1)"
    and "\<forall>p. p \<noteq> nat pos \<longrightarrow> l1 ! p = l ! p"
    and "minlsf \<le> l1 ! nat pos"
proof -
  have np: "nat pos < length l"
    using assms(1,2) by auto
  show "length l1 = length l" "\<forall>p. p \<noteq> nat pos \<longrightarrow> l1 ! p = l ! p" "minlsf \<le> l1 ! nat pos"
    using assms(3) np by (auto simp: LSF_clamp_min_def split: if_splits)
  show "(l1 = l \<and> c1 = c \<and> minlsf \<le> l ! nat pos) \<or> (l1 \<noteq> l \<and> c1 = 1)"
  proof (cases "l ! nat pos < minlsf")
    case False
    then show ?thesis
      using assms(3) by (simp add: LSF_clamp_min_def)
  next
    case True
    then have "l1 ! nat pos = minlsf" "c1 = 1"
      using assms(3) np by (auto simp: LSF_clamp_min_def)
    with True have "l1 ! nat pos \<noteq> l ! nat pos" "c1 = 1" by auto
    then show ?thesis by auto
  qed
qed

lemma LSF_clamp_max_cases:
  assumes "0 \<le> pos" and "pos < int (length l)" and "LSF_clamp_max pos (l, c) = (l1, c1)"
  shows "length l1 = length l"
    and "(l1 = l \<and> c1 = c \<and> l ! nat pos \<le> maxlsf) \<or> (l1 \<noteq> l \<and> c1 = 1)"
    and "\<forall>p. p \<noteq> nat pos \<longrightarrow> l1 ! p = l ! p"
    and "l1 ! nat pos \<le> maxlsf"
    and "minlsf \<le> l ! nat pos \<longrightarrow> minlsf \<le> l1 ! nat pos"
proof -
  have np: "nat pos < length l"
    using assms(1,2) by auto
  show "length l1 = length l" "\<forall>p. p \<noteq> nat pos \<longrightarrow> l1 ! p = l ! p" "l1 ! nat pos \<le> maxlsf"
    "minlsf \<le> l ! nat pos \<longrightarrow> minlsf \<le> l1 ! nat pos"
    using assms(3) np by (auto simp: LSF_clamp_max_def minlsf_def maxlsf_def split: if_splits)
  show "(l1 = l \<and> c1 = c \<and> l ! nat pos \<le> maxlsf) \<or> (l1 \<noteq> l \<and> c1 = 1)"
  proof (cases "l ! nat pos > maxlsf")
    case False
    then show ?thesis
      using assms(3) by (simp add: LSF_clamp_max_def)
  next
    case True
    then have "l1 ! nat pos = maxlsf" "c1 = 1"
      using assms(3) np by (auto simp: LSF_clamp_max_def)
    with True have "l1 ! nat pos \<noteq> l ! nat pos" "c1 = 1" by auto
    then show ?thesis by auto
  qed
qed

lemma LSF_body_effect:
  assumes "0 \<le> pos" and "pos + 1 < int (length l)" and "LSF_body pos (l, c) = (l', c')"
  shows "length l' = length l"
    and "\<forall>p. p \<noteq> nat pos \<and> p \<noteq> nat (pos + 1) \<longrightarrow> l' ! p = l ! p"
    and "lsf_in_range (l' ! nat pos)"
    and "c' = 0 \<longrightarrow> c = 0 \<and> l' = l \<and> lsf_stable_at l pos"
proof -
  obtain l1 c1 where s1: "LSF_separate pos (l, c) = (l1, c1)"
    by (cases "LSF_separate pos (l, c)") auto
  obtain l2 c2 where s2: "LSF_clamp_min pos (l1, c1) = (l2, c2)"
    by (cases "LSF_clamp_min pos (l1, c1)") auto
  have s3: "LSF_clamp_max pos (l2, c2) = (l', c')"
    using assms(3) s1 s2 by (simp add: LSF_body_def)
  note f1 = LSF_separate_cases [OF assms(1,2) s1]
  have b1: "pos < int (length l1)"
    using f1(1) assms(2) by simp
  note f2 = LSF_clamp_min_cases [OF assms(1) b1 s2]
  have b2: "pos < int (length l2)"
    using f2(1) b1 by simp
  note f3 = LSF_clamp_max_cases [OF assms(1) b2 s3]
  show "length l' = length l"
    using f1(1) f2(1) f3(1) by simp
  show "\<forall>p. p \<noteq> nat pos \<and> p \<noteq> nat (pos + 1) \<longrightarrow> l' ! p = l ! p"
    using f1(3) f2(3) f3(3) by simp
  show "lsf_in_range (l' ! nat pos)"
    using f2(4) f3(4,5) by (simp add: lsf_in_range_def)
  show "c' = 0 \<longrightarrow> c = 0 \<and> l' = l \<and> lsf_stable_at l pos"
    using f1(2) f2(2) f3(2) by (auto simp: lsf_stable_at_def lsf_in_range_def)
qed

subsection \<open>Positions visited by a pass\<close>

lemma LSF_pos_bound:
  fixes m k dim' NoAn L :: int
  assumes "0 \<le> m" and "m < NoAn" and "0 \<le> k" and "k < dim' - 1" and "NoAn * dim' \<le> L"
  shows "0 \<le> m * dim' + k" and "m * dim' + k + 1 < L"
proof -
  have d: "0 \<le> dim'" using assms(3,4) by simp
  with assms(1) have "0 \<le> m * dim'" by simp
  with assms(3) show "0 \<le> m * dim' + k" by simp
  have "(m + 1) * dim' \<le> NoAn * dim'"
    using assms(2) d by (intro mult_right_mono) auto
  moreover have "m * dim' + k + 1 < (m + 1) * dim'"
    using assms(4) by (simp add: algebra_simps)
  ultimately show "m * dim' + k + 1 < L"
    using assms(5) by simp
qed

lemma lsf_done_less:
  assumes "0 \<le> k" and "lsf_done dim' m k p"
  shows "0 \<le> p" and "p < m * dim' + k"
proof -
  obtain m' k' where mk: "0 \<le> m'" "0 \<le> k'" "k' < dim' - 1" "p = m' * dim' + k'"
      "m' < m \<or> (m' = m \<and> k' < k)"
    using assms(2) by (auto simp: lsf_done_def)
  have d: "0 \<le> dim'" using mk(2,3) by simp
  with mk(1) have "0 \<le> m' * dim'" by simp
  with mk(2,4) show "0 \<le> p" by simp
  show "p < m * dim' + k"
  proof (cases "m' < m")
    case True
    then have "(m' + 1) * dim' \<le> m * dim'"
      using d by (intro mult_right_mono) auto
    moreover have "p < (m' + 1) * dim'"
      using mk(3,4) by (simp add: algebra_simps)
    ultimately show ?thesis using assms(1) by simp
  next
    case False
    with mk(5) have "m' = m" "k' < k" by auto
    with mk(4) show ?thesis by simp
  qed
qed

lemma lsf_done_step:
  assumes "lsf_done dim' m (k + 1) p"
  shows "lsf_done dim' m k p \<or> p = m * dim' + k"
proof -
  obtain m' k' where mk: "0 \<le> m'" "0 \<le> k'" "k' < dim' - 1" "p = m' * dim' + k'"
      "m' < m \<or> (m' = m \<and> k' < k + 1)"
    using assms by (auto simp: lsf_done_def)
  show ?thesis
  proof (cases "m' = m \<and> k' = k")
    case True
    with mk(4) show ?thesis by simp
  next
    case False
    with mk(5) have "m' < m \<or> (m' = m \<and> k' < k)" by auto
    with mk(1-4) show ?thesis
      unfolding lsf_done_def by blast
  qed
qed

lemma lsf_done_next_row:
  assumes "lsf_done dim' (m + 1) 0 p"
  shows "lsf_done dim' m (dim' - 1) p"
proof -
  obtain m' k' where mk: "0 \<le> m'" "0 \<le> k'" "k' < dim' - 1" "p = m' * dim' + k'"
      "m' < m + 1 \<or> (m' = m + 1 \<and> k' < 0)"
    using assms by (auto simp: lsf_done_def)
  then have "m' < m \<or> (m' = m \<and> k' < dim' - 1)" by auto
  with mk(1-4) show ?thesis
    unfolding lsf_done_def by blast
qed

lemma lsf_done_init: "\<not> lsf_done dim' 0 0 p"
  by (auto simp: lsf_done_def)

lemma lsf_done_final:
  assumes "0 \<le> m" and "m < NoAn" and "0 \<le> k" and "k < dim' - 1"
  shows "lsf_done dim' NoAn 0 (m * dim' + k)"
  using assms unfolding lsf_done_def by blast

subsection \<open>One pass\<close>

text \<open>
  A step at \<open>pos\<close> writes only \<open>lsf[pos]\<close> and \<open>lsf[pos+1]\<close>, and every position visited
  before is below \<open>pos\<close>: a coefficient that a pass has clamped keeps its value until the
  pass ends. A pass that ends with the flag at \<open>0\<close> started with the flag at \<open>0\<close> and has
  found no repair to apply.
\<close>

lemma lsf_pass_inv_body:
  assumes inv: "lsf_pass_inv l0 c0 dim' m k s"
    and idx: "0 \<le> m" "m < NoAn" "0 \<le> k" "k < dim' - 1"
    and len: "NoAn * dim' \<le> int (length l0)"
  shows "lsf_pass_inv l0 c0 dim' m (k + 1) (LSF_body (m * dim' + k) s)"
proof -
  obtain l c where s: "s = (l, c)" by (cases s) auto
  obtain l' c' where b: "LSF_body (m * dim' + k) (l, c) = (l', c')"
    by (cases "LSF_body (m * dim' + k) (l, c)") auto
  have ll: "length l = length l0"
    using inv s by (simp add: lsf_pass_inv_def)
  have pos: "0 \<le> m * dim' + k" "m * dim' + k + 1 < int (length l)"
    using LSF_pos_bound [OF idx len] ll by simp_all
  note e = LSF_body_effect [OF pos b]
  have range: "lsf_in_range (l' ! nat p)" if "lsf_done dim' m (k + 1) p" for p
  proof (cases "p = m * dim' + k")
    case True
    with e(3) show ?thesis by simp
  next
    case False
    with lsf_done_step [OF that] have d: "lsf_done dim' m k p" by simp
    from lsf_done_less [OF idx(3) d] have "nat p \<noteq> nat (m * dim' + k)"
      "nat p \<noteq> nat (m * dim' + k + 1)" by auto
    with e(2) have "l' ! nat p = l ! nat p" by simp
    moreover have "lsf_in_range (l ! nat p)"
      using inv s d by (simp add: lsf_pass_inv_def)
    ultimately show ?thesis by simp
  qed
  have flag: "c0 = 0 \<and> l' = l0 \<and> (\<forall>p. lsf_done dim' m (k + 1) p \<longrightarrow> lsf_stable_at l0 p)"
    if "c' = 0"
  proof -
    from e(4) that have c: "c = 0" "l' = l" "lsf_stable_at l (m * dim' + k)" by auto
    with inv s have i: "c0 = 0" "l = l0" "\<forall>p. lsf_done dim' m k p \<longrightarrow> lsf_stable_at l0 p"
      by (auto simp: lsf_pass_inv_def)
    have "lsf_stable_at l0 p" if "lsf_done dim' m (k + 1) p" for p
      using lsf_done_step [OF that] i(2,3) c(3) by auto
    with i c show ?thesis by simp
  qed
  show ?thesis
    using e(1) ll range flag by (simp add: lsf_pass_inv_def s b)
qed

lemma lsf_pass_inv_row:
  assumes inv: "lsf_pass_inv l0 c0 dim' m 0 s"
    and idx: "0 \<le> m" "m < NoAn"
    and len: "NoAn * dim' \<le> int (length l0)"
  shows "lsf_pass_inv l0 c0 dim' (m + 1) 0
           (for_loop 0 (dim' - 1) (\<lambda>k. LSF_body (m * dim' + k)) s)"
proof (cases "0 \<le> dim' - 1")
  case True
  have "lsf_pass_inv l0 c0 dim' m (dim' - 1)
          (for_loop 0 (dim' - 1) (\<lambda>k. LSF_body (m * dim' + k)) s)"
    using inv True
  proof (rule for_loop_rule [where P = "\<lambda>k. lsf_pass_inv l0 c0 dim' m k"])
    fix j t
    assume "0 \<le> j" "j < dim' - 1" "lsf_pass_inv l0 c0 dim' m j t"
    then show "lsf_pass_inv l0 c0 dim' m (j + 1) (LSF_body (m * dim' + j) t)"
      using lsf_pass_inv_body idx len by blast
  qed
  then show ?thesis
    using lsf_done_next_row [of dim' m] unfolding lsf_pass_inv_def by blast
next
  case False
  then have none: "\<not> lsf_done dim' a b p" for a b p
    by (auto simp: lsf_done_def)
  have "for_loop 0 (dim' - 1) (\<lambda>k. LSF_body (m * dim' + k)) s = s"
    using False by (simp add: for_loop_done)
  with inv show ?thesis
    by (simp add: lsf_pass_inv_def none)
qed

lemma LSF_pass_effect:
  assumes len: "NoAn * dim' \<le> int (length l0)" and run: "LSF_pass dim' NoAn (l0, c0) = (l', c')"
  shows "length l' = length l0"
    and "\<forall>m k. 0 \<le> m \<and> m < NoAn \<and> 0 \<le> k \<and> k < dim' - 1 \<longrightarrow>
           lsf_in_range (l' ! nat (m * dim' + k))"
    and "c' = 0 \<longrightarrow> c0 = 0 \<and> l' = l0
           \<and> (\<forall>m k. 0 \<le> m \<and> m < NoAn \<and> 0 \<le> k \<and> k < dim' - 1 \<longrightarrow>
                 lsf_stable_at l0 (m * dim' + k))"
proof -
  have init: "lsf_pass_inv l0 c0 dim' 0 0 (l0, c0)"
    by (simp add: lsf_pass_inv_def lsf_done_init)
  have fin: "lsf_pass_inv l0 c0 dim' NoAn 0 (l', c')" if "0 \<le> NoAn"
    unfolding run [symmetric] LSF_pass_def using init that
  proof (rule for_loop_rule [where P = "\<lambda>m. lsf_pass_inv l0 c0 dim' m 0"])
    fix j t
    assume "0 \<le> j" "j < NoAn" "lsf_pass_inv l0 c0 dim' j 0 t"
    then show "lsf_pass_inv l0 c0 dim' (j + 1) 0
                 (for_loop 0 (dim' - 1) (\<lambda>k. LSF_body (j * dim' + k)) t)"
      using lsf_pass_inv_row len by blast
  qed
  have neg: "l' = l0 \<and> c' = c0" if "\<not> 0 \<le> NoAn"
    using run that by (simp add: LSF_pass_def for_loop_done)
  show "length l' = length l0"
    using fin neg by (cases "0 \<le> NoAn") (auto simp: lsf_pass_inv_def)
  show "\<forall>m k. 0 \<le> m \<and> m < NoAn \<and> 0 \<le> k \<and> k < dim' - 1 \<longrightarrow>
           lsf_in_range (l' ! nat (m * dim' + k))"
  proof (intro allI impI)
    fix m k assume mk: "0 \<le> m \<and> m < NoAn \<and> 0 \<le> k \<and> k < dim' - 1"
    then have "lsf_done dim' NoAn 0 (m * dim' + k)"
      using lsf_done_final by simp
    moreover have "lsf_pass_inv l0 c0 dim' NoAn 0 (l', c')"
      using fin mk by simp
    ultimately show "lsf_in_range (l' ! nat (m * dim' + k))"
      by (simp add: lsf_pass_inv_def)
  qed
  show "c' = 0 \<longrightarrow> c0 = 0 \<and> l' = l0
           \<and> (\<forall>m k. 0 \<le> m \<and> m < NoAn \<and> 0 \<le> k \<and> k < dim' - 1 \<longrightarrow>
                 lsf_stable_at l0 (m * dim' + k))"
  proof (cases "0 \<le> NoAn")
    case True
    show ?thesis
      using fin [OF True] lsf_done_final [of _ NoAn _ dim']
      unfolding lsf_pass_inv_def by auto
  next
    case False
    with neg show ?thesis by auto
  qed
qed

lemma LSF_check_two_passes:
  "LSF_check lsf dim' NoAn = LSF_pass dim' NoAn (LSF_pass dim' NoAn (lsf, 0))"
  by (simp add: LSF_check_def Nit_def for_loop.simps)

lemmas LSF_eval = LSF_check_def LSF_pass_def Nit_def for_loop.simps LSF_body_def
  LSF_separate_def LSF_clamp_min_def LSF_clamp_max_def eps_def eps2_def minlsf_def maxlsf_def

text \<open>
  C1, as the code has it. For a table of \<open>NoAn\<close> vectors of dimension \<open>dim\<close> in a buffer
  of at least \<open>NoAn * dim\<close> values, after \<^verbatim>\<open>LSF_check\<close> returns every coefficient but the
  last of each vector (\<open>lsf[m*dim + k]\<close> with \<open>k < dim - 1\<close>) lies within
  \<open>[minlsf, maxlsf]\<close>; and when \<^verbatim>\<open>LSF_check\<close> returns \<open>0\<close>, every adjacent pair
  \<open>lsf[k]\<close>, \<open>lsf[k+1]\<close> within each vector is separated by at least \<open>eps\<close>.
\<close>

theorem LSF_check_guarantee:
  assumes "NoAn * dim' \<le> int (length lsf)"
  shows "(\<forall>m k. 0 \<le> m \<and> m < NoAn \<and> 0 \<le> k \<and> k < dim' - 1 \<longrightarrow>
            minlsf \<le> fst (LSF_check lsf dim' NoAn) ! nat (m * dim' + k)
            \<and> fst (LSF_check lsf dim' NoAn) ! nat (m * dim' + k) \<le> maxlsf)
         \<and> (snd (LSF_check lsf dim' NoAn) = 0 \<longrightarrow>
              (\<forall>m k. 0 \<le> m \<and> m < NoAn \<and> 0 \<le> k \<and> k < dim' - 1 \<longrightarrow>
                 eps \<le> fst (LSF_check lsf dim' NoAn) ! nat (m * dim' + k + 1)
                        - fst (LSF_check lsf dim' NoAn) ! nat (m * dim' + k)))"
proof -
  obtain l1 c1 where p1: "LSF_pass dim' NoAn (lsf, 0) = (l1, c1)"
    by (cases "LSF_pass dim' NoAn (lsf, 0)") auto
  obtain l2 c2 where p2: "LSF_pass dim' NoAn (l1, c1) = (l2, c2)"
    by (cases "LSF_pass dim' NoAn (l1, c1)") auto
  have r: "LSF_check lsf dim' NoAn = (l2, c2)"
    by (simp add: LSF_check_two_passes p1 p2)
  note e1 = LSF_pass_effect [OF assms p1]
  have len1: "NoAn * dim' \<le> int (length l1)"
    using e1(1) assms by simp
  note e2 = LSF_pass_effect [OF len1 p2]
  have "c2 = 0 \<longrightarrow> (\<forall>m k. 0 \<le> m \<and> m < NoAn \<and> 0 \<le> k \<and> k < dim' - 1 \<longrightarrow>
                 eps \<le> l2 ! nat (m * dim' + k + 1) - l2 ! nat (m * dim' + k))"
    using e2(3) by (auto simp: lsf_stable_at_def)
  then show ?thesis
    unfolding r using e2(2) by (simp add: lsf_in_range_def)
qed

theorem LSF_check_guarantee_witness:
  "minlsf \<le> fst (LSF_check [1, 1, 1] 3 1) ! 0 \<and> fst (LSF_check [1, 1, 1] 3 1) ! 1 \<le> maxlsf
   \<and> LSF_check [1, 2, 3] 3 1 = ([1, 2, 3], 0) \<and> eps \<le> (2::real) - 1"
proof -
  have l: "(1::int) * 3 \<le> int (length [1, 1, 1::real])" "(1::int) * 3 \<le> int (length [1, 2, 3::real])"
    by simp_all
  have c: "LSF_check [1, 2, 3] 3 1 = ([1, 2, 3], 0)"
    by (simp add: LSF_eval)
  note a = LSF_check_guarantee [OF l(1), THEN conjunct1, THEN spec, THEN spec, of 0]
  note b = LSF_check_guarantee [OF l(2), THEN conjunct2]
  have "minlsf \<le> fst (LSF_check [1, 1, 1] 3 1) ! 0"
    using a [of 0] by simp
  moreover have "fst (LSF_check [1, 1, 1] 3 1) ! 1 \<le> maxlsf"
    using a [of 1] by simp
  moreover have "eps \<le> (2::real) - 1"
    using b c by (auto dest!: spec [of _ 0])
  ultimately show ?thesis using c by simp
qed

text \<open>
  The claim for every table fails. The vector \<open>[3.1, 3.11, 3.12]\<close> is ascending and within
  the valid range. The first pass pushes the first pair apart to \<open>3.0805, 3.1295\<close> and sets
  the third value to \<open>3.149\<close>; the second pass pushes the second pair apart to
  \<open>3.11, 3.1685\<close>. The call returns \<open>[3.0805, 3.11, 3.1685]\<close>: the first gap is \<open>0.0295\<close>,
  below \<open>eps = 0.039\<close>, and the last value is above \<open>maxlsf = 3.14\<close>.
\<close>

theorem LSF_check_counterexample:
  "LSF_check [31 / 10, 311 / 100, 312 / 100] 3 1 = ([6161 / 2000, 311 / 100, 6337 / 2000], 1)
   \<and> fst (LSF_check [31 / 10, 311 / 100, 312 / 100] 3 1) ! 1
       - fst (LSF_check [31 / 10, 311 / 100, 312 / 100] 3 1) ! 0 < eps
   \<and> maxlsf < fst (LSF_check [31 / 10, 311 / 100, 312 / 100] 3 1) ! 2"
proof -
  have r: "LSF_check [31 / 10, 311 / 100, 312 / 100] 3 1
             = ([6161 / 2000, 311 / 100, 6337 / 2000], 1)"
    by (simp add: LSF_eval)
  show ?thesis
    unfolding r by (simp add: eps_def maxlsf_def)
qed

subsection \<open>The flag\<close>

lemma LSF_check_counted_fst: "fst (LSF_check_counted lsf dim' NoAn) = LSF_check lsf dim' NoAn"
proof -
  have k: "fst (for_loop 0 (dim' - 1) (\<lambda>k. LSF_body_counted (m * dim' + k)) t)
             = for_loop 0 (dim' - 1) (\<lambda>k. LSF_body (m * dim' + k)) (fst t)" for m t
    by (rule for_loop_fst) (simp add: LSF_body_counted_def)
  have m: "fst (for_loop 0 NoAn
                 (\<lambda>m. for_loop 0 (dim' - 1) (\<lambda>k. LSF_body_counted (m * dim' + k))) t)
             = LSF_pass dim' NoAn (fst t)" for t
    unfolding LSF_pass_def by (rule for_loop_fst) (simp add: k)
  show ?thesis
    unfolding LSF_check_counted_def LSF_check_def
    by (subst for_loop_fst [where f = "\<lambda>n. LSF_pass dim' NoAn"]) (simp_all add: m)
qed

lemma lsf_flag_inv_body:
  assumes inv: "lsf_flag_inv l0 t"
    and pos: "0 \<le> pos" "pos + 1 < int (length l0)"
  shows "lsf_flag_inv l0 (LSF_body_counted pos t)"
proof -
  obtain l c n where t: "t = ((l, c), n)" by (cases t) auto
  obtain l1 c1 where s1: "LSF_separate pos (l, c) = (l1, c1)"
    by (cases "LSF_separate pos (l, c)") auto
  obtain l2 c2 where s2: "LSF_clamp_min pos (l1, c1) = (l2, c2)"
    by (cases "LSF_clamp_min pos (l1, c1)") auto
  obtain l3 c3 where s3: "LSF_clamp_max pos (l2, c2) = (l3, c3)"
    by (cases "LSF_clamp_max pos (l2, c2)") auto
  have ll: "length l = length l0"
    using inv t by (simp add: lsf_flag_inv_def)
  have b0: "pos + 1 < int (length l)"
    using pos ll by simp
  note f1 = LSF_separate_cases [OF pos(1) b0 s1]
  have b1: "pos < int (length l1)"
    using f1(1) b0 by simp
  note f2 = LSF_clamp_min_cases [OF pos(1) b1 s2]
  have b2: "pos < int (length l2)"
    using f2(1) b1 by simp
  note f3 = LSF_clamp_max_cases [OF pos(1) b2 s3]
  have body: "LSF_body pos (l, c) = (l3, c3)"
    by (simp add: LSF_body_def s1 s2 s3)
  have cnt: "LSF_body_repairs pos (l, c) =
      (if l1 \<noteq> l then 1 else 0) + (if l2 \<noteq> l1 then 1 else 0) + (if l3 \<noteq> l2 then 1 else 0)"
    by (simp add: LSF_body_repairs_def s1 s2 s3)
  have i: "c \<noteq> 0 \<longleftrightarrow> 0 < n" "c = 0 \<longrightarrow> l = l0"
    using inv t by (simp_all add: lsf_flag_inv_def)
  have "length l3 = length l0"
    using f1(1) f2(1) f3(1) ll by simp
  moreover have "c3 \<noteq> 0 \<longleftrightarrow> 0 < n + LSF_body_repairs pos (l, c)"
    using f1(2) f2(2) f3(2) i(1) unfolding cnt by auto
  moreover have "c3 = 0 \<longrightarrow> l3 = l0"
    using f1(2) f2(2) f3(2) i(2) by auto
  ultimately show ?thesis
    by (simp add: lsf_flag_inv_def LSF_body_counted_def t body)
qed

lemma lsf_flag_inv_check:
  assumes len: "NoAn * dim' \<le> int (length lsf)"
  shows "lsf_flag_inv lsf (LSF_check_counted lsf dim' NoAn)"
  unfolding LSF_check_counted_def
proof (rule for_loop_inv)
  show "lsf_flag_inv lsf ((lsf, 0), 0)"
    by (simp add: lsf_flag_inv_def)
next
  fix n :: int and t
  assume "lsf_flag_inv lsf t"
  then show "lsf_flag_inv lsf
     (for_loop 0 NoAn (\<lambda>m. for_loop 0 (dim' - 1) (\<lambda>k. LSF_body_counted (m * dim' + k))) t)"
  proof (rule for_loop_inv)
    fix m :: int and u
    assume m: "0 \<le> m" "m < NoAn" and "lsf_flag_inv lsf u"
    from this(3) show "lsf_flag_inv lsf
        (for_loop 0 (dim' - 1) (\<lambda>k. LSF_body_counted (m * dim' + k)) u)"
    proof (rule for_loop_inv)
      fix k :: int and v
      assume k: "0 \<le> k" "k < dim' - 1" and v: "lsf_flag_inv lsf v"
      show "lsf_flag_inv lsf (LSF_body_counted (m * dim' + k) v)"
        using lsf_flag_inv_body [OF v] LSF_pos_bound [OF m k len] by simp
    qed
  qed
qed

text \<open>
  C9. \<^verbatim>\<open>LSF_check\<close> returns a nonzero flag if and only if at least one repair (a
  separation or a clamp that changes the table) was applied during the call; when it
  returns \<open>0\<close> the table is equal to its input.
\<close>

theorem LSF_check_change_flag:
  assumes "NoAn * dim' \<le> int (length lsf)"
  shows "(snd (LSF_check lsf dim' NoAn) \<noteq> 0 \<longleftrightarrow> 0 < LSF_repairs lsf dim' NoAn)
         \<and> (snd (LSF_check lsf dim' NoAn) = 0 \<longrightarrow> fst (LSF_check lsf dim' NoAn) = lsf)"
  using lsf_flag_inv_check [OF assms]
  by (simp add: lsf_flag_inv_def LSF_repairs_def LSF_check_counted_fst [symmetric])

theorem LSF_check_change_flag_witness:
  "LSF_check [1, 5] 2 1 = ([1, 5], 0) \<and> LSF_repairs [1, 5] 2 1 = 0
   \<and> snd (LSF_check [1, 1] 2 1) = 1 \<and> 0 < LSF_repairs [1, 1] 2 1"
proof -
  have a: "LSF_check [1, 5] 2 1 = ([1, 5], 0)"
    by (simp add: LSF_eval)
  have b: "snd (LSF_check [1, 1] 2 1) = 1"
    by (simp add: LSF_eval)
  have "LSF_repairs [1, 5] 2 1 = 0"
    using LSF_check_change_flag [of 1 2 "[1, 5]"] a by simp
  moreover have "0 < LSF_repairs [1, 1] 2 1"
    using LSF_check_change_flag [of 1 2 "[1, 1]"] b by simp
  ultimately show ?thesis using a b by simp
qed

end
